theory Spec2Isabelle
  imports Main
begin

section \<open>The selection locator of \<open>open_in_web.ts\<close>\<close>

text \<open>
  The function \<open>getSelectionPosition\<close> of \<open>open_in_web.ts\<close> finds the line and column
  span of a text selection inside the text of a file.  This theory embeds the function
  together with its three local closures \<open>matchesAt\<close>, \<open>findColumn\<close> and \<open>scan\<close>, and
  the string primitives of the language that they call.

  Conventions of the embedding:
  \<^item> a JavaScript string is a list of code units; the core is polymorphic in the code
    unit, the entry point uses \<open>string\<close>;
  \<^item> a JavaScript number that holds a line index is an \<open>int\<close> (the code computes
    \<open>hintLine - 1 - 1\<close>, which may be \<open>-1\<close>; line counts stay far below the range in
    which a double is exact);
  \<^item> the optional parameter \<open>hintLine\<close> is an \<open>int option\<close>, \<open>None\<close> for \<open>undefined\<close>;
    the caller passes the result of \<open>parseInt\<close>, and a \<open>NaN\<close> fails the test
    \<open>hintLine > 0\<close> as every integer below \<open>1\<close> does;
  \<^item> reading an array out of range gives \<open>undefined\<close>, and calling a method on
    \<open>undefined\<close> throws a \<open>TypeError\<close>: array reads are \<open>option\<close> valued and the
    throw is a value of the result;
  \<^item> the file is read by the caller of the model: the first argument is the decoded
    content of the file, not its path.
\<close>

subsection \<open>String primitives\<close>

text \<open>
  \<open>s.includes(t)\<close>, here \<open>str_includes s t\<close>: some position \<open>k\<close> with
  \<open>k + |t| \<le> |s|\<close> carries the code units of \<open>t\<close>.
\<close>

definition str_includes :: "'a list \<Rightarrow> 'a list \<Rightarrow> bool" where
  "str_includes s t =
     list_ex (\<lambda>k. k + length t \<le> length s \<and> take (length t) (drop k s) = t)
       [0..<Suc (length s)]"

text \<open>
  \<open>s.indexOf(t)\<close>: the positions \<open>0, 1, \<dots>, |s| - |t|\<close> are tried in increasing order, the
  first one that carries \<open>t\<close> is returned, and \<open>-1\<close> when there is none.
\<close>

function indexOfFrom :: "'a list \<Rightarrow> 'a list \<Rightarrow> nat \<Rightarrow> int" where
  "indexOfFrom s t k =
     (if k + length t \<le> length s
      then (if take (length t) (drop k s) = t then int k else indexOfFrom s t (Suc k))
      else - 1)"
  by pat_completeness auto
termination
  by (relation "measure (\<lambda>(s, t, k). Suc (length s) - k)") auto

declare indexOfFrom.simps [simp del]

definition indexOf :: "'a list \<Rightarrow> 'a list \<Rightarrow> int" where
  "indexOf s t = indexOfFrom s t 0"

text \<open>\<open>s.replace(/\r\n/g, "\n")\<close>: every carriage return followed by a line feed is
  replaced by the line feed, scanning from the left.\<close>

definition CR :: char where
  "CR = CHR 0x0D"

definition LF :: char where
  "LF = CHR 0x0A"

fun replaceCRLF :: "string \<Rightarrow> string" where
  "replaceCRLF (c # d # cs) =
     (if c = CR \<and> d = LF then LF # replaceCRLF cs else c # replaceCRLF (d # cs))"
| "replaceCRLF cs = cs"

text \<open>\<open>s.split("\n")\<close>: the pieces between the line feeds; the empty string gives one
  empty piece.\<close>

fun splitLF :: "string \<Rightarrow> string list" where
  "splitLF [] = [[]]"
| "splitLF (c # cs) =
     (if c = LF then [] # splitLF cs
      else (case splitLF cs of l # ls \<Rightarrow> (c # l) # ls | [] \<Rightarrow> [[c]]))"

text \<open>An array read \<open>xs[k]\<close>; \<open>None\<close> is \<open>undefined\<close>.\<close>

definition at :: "'a list \<Rightarrow> int \<Rightarrow> 'a option" where
  "at xs k = (if 0 \<le> k \<and> k < int (length xs) then Some (xs ! nat k) else None)"

subsection \<open>Results\<close>

datatype error = TypeError

record span =
  startLine :: int
  startColumn :: int
  endLine :: int
  endColumn :: int

text \<open>
  The ways \<open>getSelectionPosition\<close> ends.  \<open>NotFound\<close> is the \<open>return null\<close> after the
  scans, \<open>ColumnAnomaly\<close> is the \<open>return null\<close> of the guard on the columns, which
  calls \<open>Logger.warn\<close> first; the caller sees \<open>null\<close> in both.
\<close>

datatype outcome = Found span | NotFound | ColumnAnomaly | Thrown error

datatype direction = Up | Down

subsection \<open>The closures\<close>

text \<open>The loop of \<open>matchesAt\<close> over the lines of the selection, from line \<open>i\<close> on.\<close>

function matchesAtLoop :: "'a list list \<Rightarrow> 'a list list \<Rightarrow> int \<Rightarrow> nat \<Rightarrow> error + bool" where
  "matchesAtLoop fileLines selectionLines lineIdx i =
     (if i < length selectionLines
      then (case at fileLines (lineIdx + int i) of
              None \<Rightarrow> Inl TypeError
            | Some line \<Rightarrow>
                if \<not> str_includes line (selectionLines ! i) then Inr False
                else matchesAtLoop fileLines selectionLines lineIdx (Suc i))
      else Inr True)"
  by pat_completeness auto
termination
  by (relation "measure (\<lambda>(fl, sl, l, i). length sl - i)") auto

declare matchesAtLoop.simps [simp del]

definition matchesAt :: "'a list list \<Rightarrow> 'a list list \<Rightarrow> int \<Rightarrow> error + bool" where
  "matchesAt fileLines selectionLines lineIdx =
     (if lineIdx < 0 \<or> lineIdx + int (length selectionLines) > int (length fileLines)
      then Inr False
      else matchesAtLoop fileLines selectionLines lineIdx 0)"

text \<open>\<open>findColumn\<close>; the line is an array read, and \<open>indexOf\<close> on \<open>undefined\<close> throws.\<close>

definition findColumn :: "'a list option \<Rightarrow> 'a list \<Rightarrow> error + int" where
  "findColumn line target =
     (case line of
        None \<Rightarrow> Inl TypeError
      | Some l \<Rightarrow> (let col = indexOf l target in Inr (if col = - 1 then - 1 else col + 1)))"

text \<open>
  \<open>scan\<close> assigns the variable \<open>matchStartLine\<close> of the enclosing function at the first
  index that matches and leaves it alone otherwise: the model takes the value of the
  variable and returns the new one.
\<close>

function scanLoop ::
  "'a list list \<Rightarrow> 'a list list \<Rightarrow> direction \<Rightarrow> int \<Rightarrow> int option \<Rightarrow> error + int option"
where
  "scanLoop fileLines selectionLines direction currentLineIndex matchStartLine =
     (if (if direction = Up then currentLineIndex \<ge> 0
          else currentLineIndex \<le> int (length fileLines) - int (length selectionLines))
      then (case matchesAt fileLines selectionLines currentLineIndex of
              Inl e \<Rightarrow> Inl e
            | Inr b \<Rightarrow>
                if b then Inr (Some (currentLineIndex + 1))
                else scanLoop fileLines selectionLines direction
                       (currentLineIndex + (if direction = Up then - 1 else 1)) matchStartLine)
      else Inr matchStartLine)"
  by pat_completeness auto
termination
  by (relation "measure (\<lambda>(fl, sl, d, c, m).
        if d = Up then nat (c + 1) else nat (int (length fl) - int (length sl) - c + 1))")
     auto

declare scanLoop.simps [simp del]

definition scan ::
  "'a list list \<Rightarrow> 'a list list \<Rightarrow> int \<Rightarrow> direction \<Rightarrow> int option \<Rightarrow> error + int option"
where
  "scan fileLines selectionLines startLineIndex direction matchStartLine =
     scanLoop fileLines selectionLines direction startLineIndex matchStartLine"

subsection \<open>The function\<close>

text \<open>
  The body of \<open>getSelectionPosition\<close> is three blocks run one after the other: the
  two splits, the search that assigns \<open>matchStartLine\<close> (the hinted scans and the
  fallback scan), and the computation of the span from \<open>matchStartLine\<close>.  The second
  and the third block are \<open>searchMatchStartLine\<close> and \<open>spanFrom\<close>.
\<close>

definition searchMatchStartLine ::
  "'a list list \<Rightarrow> 'a list list \<Rightarrow> int option \<Rightarrow> error + int option"
where
  "searchMatchStartLine fileLines selectionLines hintLine =
     (let hinted =
            (case hintLine of
               None \<Rightarrow> Inr None
             | Some h \<Rightarrow>
                 if h > 0 \<and> h \<le> int (length fileLines)
                 then (let zeroBasedHintLine = h - 1 in
                       case scan fileLines selectionLines zeroBasedHintLine Down None of
                         Inl e \<Rightarrow> Inl e
                       | Inr m \<Rightarrow>
                           if m = None
                           then scan fileLines selectionLines (zeroBasedHintLine - 1) Up m
                           else Inr m)
                 else Inr None)
      in case hinted of
           Inl e \<Rightarrow> Inl e
         | Inr m \<Rightarrow> if m = None then scan fileLines selectionLines 0 Down m else Inr m)"

definition spanFrom :: "'a list list \<Rightarrow> 'a list list \<Rightarrow> int \<Rightarrow> outcome" where
  "spanFrom fileLines selectionLines matchStartLine =
     (let selLen = int (length selectionLines);
          actualStartLineIndex = matchStartLine - 1;
          actualEndLineIndex = actualStartLineIndex + selLen - 1
      in case findColumn (at fileLines actualStartLineIndex) (selectionLines ! 0) of
           Inl e \<Rightarrow> Thrown e
         | Inr startCol \<Rightarrow>
            (case findColumn (at fileLines actualEndLineIndex)
                    (selectionLines ! (length selectionLines - 1)) of
               Inl e \<Rightarrow> Thrown e
             | Inr endColumnOfLastSelectionLineStart \<Rightarrow>
                 if startCol = - 1 \<or> endColumnOfLastSelectionLineStart = - 1
                 then ColumnAnomaly
                 else Found \<lparr> startLine = matchStartLine,
                              startColumn = startCol,
                              endLine = actualEndLineIndex + 1,
                              endColumn =
                                endColumnOfLastSelectionLineStart
                                + int (length (selectionLines ! (length selectionLines - 1)))
                                - 1 \<rparr>))"

abbreviation linesOf :: "string \<Rightarrow> string list" where
  "linesOf s \<equiv> splitLF (replaceCRLF s)"

definition getSelectionPosition :: "string \<Rightarrow> string \<Rightarrow> int option \<Rightarrow> outcome" where
  "getSelectionPosition content selection hintLine =
     (let fileLines = linesOf content;
          selectionLines = linesOf selection
      in case searchMatchStartLine fileLines selectionLines hintLine of
           Inl e \<Rightarrow> Thrown e
         | Inr None \<Rightarrow> NotFound
         | Inr (Some matchStartLine) \<Rightarrow> spanFrom fileLines selectionLines matchStartLine)"

subsection \<open>Predicates of the analysis\<close>

text \<open>The string \<open>t\<close> sits in \<open>s\<close> at position \<open>k\<close>.\<close>

definition occursAt :: "'a list \<Rightarrow> 'a list \<Rightarrow> nat \<Rightarrow> bool" where
  "occursAt s t k = (k + length t \<le> length s \<and> take (length t) (drop k s) = t)"

text \<open>
  A valid alignment of the selection at line index \<open>i\<close>: the window lies inside the file
  and every line of the file in the window includes the line of the selection beside it.
  The closure \<open>matchesAt\<close> computes it (lemma \<open>matchesAt_eq\<close>).
\<close>

definition validAlignment :: "'a list list \<Rightarrow> 'a list list \<Rightarrow> int \<Rightarrow> bool" where
  "validAlignment fl sl i =
     (0 \<le> i \<and> i + int (length sl) \<le> int (length fl) \<and>
      list_all (\<lambda>k. str_includes (fl ! (nat i + k)) (sl ! k)) [0..<length sl])"

text \<open>The span that \<open>spanFrom\<close> returns for a valid alignment at index \<open>p\<close>.\<close>

definition spanOfMatch :: "'a list list \<Rightarrow> 'a list list \<Rightarrow> int \<Rightarrow> span" where
  "spanOfMatch fl sl p =
     \<lparr> startLine = p + 1,
       startColumn = indexOf (fl ! nat p) (sl ! 0) + 1,
       endLine = p + int (length sl),
       endColumn = indexOf (fl ! nat (p + int (length sl) - 1)) (sl ! (length sl - 1))
                   + int (length (sl ! (length sl - 1))) \<rparr>"

text \<open>Position \<open>k\<close> is the first one at which \<open>t\<close> sits in \<open>s\<close>.\<close>

definition firstOccurrence :: "'a list \<Rightarrow> 'a list \<Rightarrow> nat \<Rightarrow> bool" where
  "firstOccurrence s t k = (occursAt s t k \<and> list_all (\<lambda>j. \<not> occursAt s t j) [0..<k])"

section \<open>Analysis\<close>

subsection \<open>Strings\<close>

lemma str_includes_iff: "str_includes s t \<longleftrightarrow> (\<exists>k. occursAt s t k)"
proof
  assume "str_includes s t"
  then show "\<exists>k. occursAt s t k"
    by (auto simp: str_includes_def occursAt_def list_ex_iff)
next
  assume "\<exists>k. occursAt s t k"
  then obtain k where k: "k + length t \<le> length s" "take (length t) (drop k s) = t"
    by (auto simp: occursAt_def)
  from k(1) have "k < Suc (length s)" by arith
  then have "k \<in> set [0..<Suc (length s)]"
    unfolding set_upt atLeastLessThan_iff by arith
  with k show "str_includes s t"
    unfolding str_includes_def list_ex_iff by blast
qed

lemma indexOfFrom_none:
  "(\<forall>j. k \<le> j \<longrightarrow> \<not> occursAt s t j) \<Longrightarrow> indexOfFrom s t k = - 1"
proof (induction s t k rule: indexOfFrom.induct)
  case (1 s t k)
  show ?case
  proof (cases "k + length t \<le> length s")
    case True
    from "1.prems" have nk: "take (length t) (drop k s) \<noteq> t"
      using True by (auto simp: occursAt_def)
    have "indexOfFrom s t (Suc k) = - 1"
      using "1.IH" [OF True nk] "1.prems" by simp
    with True nk show ?thesis by (subst indexOfFrom.simps) simp
  next
    case False
    then show ?thesis by (subst indexOfFrom.simps) simp
  qed
qed

lemma indexOfFrom_first:
  "occursAt s t p \<Longrightarrow> k \<le> p \<Longrightarrow> (\<forall>j. k \<le> j \<and> j < p \<longrightarrow> \<not> occursAt s t j)
   \<Longrightarrow> indexOfFrom s t k = int p"
proof (induction s t k rule: indexOfFrom.induct)
  case (1 s t k)
  from "1.prems" have le: "k + length t \<le> length s" by (auto simp: occursAt_def)
  show ?case
  proof (cases "take (length t) (drop k s) = t")
    case True
    with le have "occursAt s t k" by (simp add: occursAt_def)
    with "1.prems" have "k = p" by (metis le_neq_implies_less order_refl)
    with True le show ?thesis by (subst indexOfFrom.simps) simp
  next
    case False
    with "1.prems" have "k \<noteq> p" by (auto simp: occursAt_def)
    with "1.prems" have "Suc k \<le> p" by simp
    moreover have "\<forall>j. Suc k \<le> j \<and> j < p \<longrightarrow> \<not> occursAt s t j" using "1.prems" by simp
    ultimately have "indexOfFrom s t (Suc k) = int p"
      using "1.IH" [OF le False] "1.prems"(1) by blast
    with False le show ?thesis by (subst indexOfFrom.simps) simp
  qed
qed

lemma occurs_least:
  assumes "occursAt s t k"
  obtains p where "occursAt s t p" "\<forall>j<p. \<not> occursAt s t j"
proof -
  let ?p = "LEAST j. occursAt s t j"
  have "occursAt s t ?p" using assms by (rule LeastI)
  moreover have "\<forall>j<?p. \<not> occursAt s t j" using not_less_Least by blast
  ultimately show ?thesis using that by blast
qed

lemma indexOf_first: "occursAt s t p \<Longrightarrow> \<forall>j<p. \<not> occursAt s t j \<Longrightarrow> indexOf s t = int p"
  unfolding indexOf_def by (rule indexOfFrom_first) auto

lemma indexOf_includes:
  assumes "str_includes s t"
  obtains p where "indexOf s t = int p" "occursAt s t p" "\<forall>j<p. \<not> occursAt s t j"
proof -
  from assms obtain k where "occursAt s t k" by (auto simp: str_includes_iff)
  then obtain p where p: "occursAt s t p" "\<forall>j<p. \<not> occursAt s t j" by (rule occurs_least)
  then have "indexOf s t = int p" by (rule indexOf_first)
  with p show ?thesis using that by blast
qed

lemma indexOf_not_includes: "\<not> str_includes s t \<Longrightarrow> indexOf s t = - 1"
  unfolding indexOf_def by (rule indexOfFrom_none) (simp add: str_includes_iff)

subsection \<open>The closure \<open>matchesAt\<close> never throws\<close>

lemma at_in_range: "0 \<le> k \<Longrightarrow> k < int (length xs) \<Longrightarrow> at xs k = Some (xs ! nat k)"
  by (simp add: at_def)

lemma matchesAtLoop_eq:
  "0 \<le> lineIdx \<Longrightarrow> lineIdx + int (length sl) \<le> int (length fl) \<Longrightarrow>
   matchesAtLoop fl sl lineIdx i =
     Inr (list_all (\<lambda>k. str_includes (fl ! (nat lineIdx + k)) (sl ! k)) [i..<length sl])"
proof (induction fl sl lineIdx i rule: matchesAtLoop.induct)
  case (1 fl sl lineIdx i)
  show ?case
  proof (cases "i < length sl")
    case True
    with "1.prems" have at: "at fl (lineIdx + int i) = Some (fl ! (nat lineIdx + i))"
      by (simp add: at_def nat_add_distrib)
    have up: "[i..<length sl] = i # [Suc i..<length sl]"
      using True by (simp add: upt_conv_Cons)
    show ?thesis
    proof (cases "str_includes (fl ! (nat lineIdx + i)) (sl ! i)")
      case inc: True
      have "matchesAtLoop fl sl lineIdx (Suc i) =
        Inr (list_all (\<lambda>k. str_includes (fl ! (nat lineIdx + k)) (sl ! k)) [Suc i..<length sl])"
        using "1.IH" [OF True at] inc "1.prems" by simp
      with True at inc up show ?thesis by (subst matchesAtLoop.simps) simp
    next
      case False
      with True at up show ?thesis by (subst matchesAtLoop.simps) simp
    qed
  next
    case False
    then show ?thesis by (subst matchesAtLoop.simps) simp
  qed
qed

lemma matchesAt_eq: "matchesAt fl sl i = Inr (validAlignment fl sl i)"
proof (cases "i < 0 \<or> i + int (length sl) > int (length fl)")
  case True
  then show ?thesis by (auto simp: matchesAt_def validAlignment_def)
next
  case False
  then have "0 \<le> i" "i + int (length sl) \<le> int (length fl)" by auto
  then show ?thesis using matchesAtLoop_eq [of i sl fl 0]
    by (simp add: matchesAt_def validAlignment_def)
qed

subsection \<open>The scans\<close>

text \<open>A scan that meets no valid alignment leaves \<open>matchStartLine\<close> alone; otherwise it
  stops at the first valid alignment in its direction.\<close>

lemma scanLoop_Down_none:
  "d = Down \<Longrightarrow> (\<forall>j. c \<le> j \<longrightarrow> \<not> validAlignment fl sl j) \<Longrightarrow>
   scanLoop fl sl d c m = Inr m"
proof (induction fl sl d c m rule: scanLoop.induct)
  case (1 fl sl d c m)
  show ?case
  proof (cases "c \<le> int (length fl) - int (length sl)")
    case True
    have ma: "matchesAt fl sl c = Inr False"
      using "1.prems" by (simp add: matchesAt_eq)
    have "scanLoop fl sl d (c + (if d = Up then - 1 else 1)) m = Inr m"
      using "1.IH" [OF _ ma] "1.prems" True by simp
    with ma True "1.prems"(1) show ?thesis by (subst scanLoop.simps) simp
  next
    case False
    with "1.prems"(1) show ?thesis by (subst scanLoop.simps) simp
  qed
qed

lemma scanLoop_Down_first:
  "d = Down \<Longrightarrow> validAlignment fl sl p \<Longrightarrow> c \<le> p \<Longrightarrow>
   (\<forall>j. c \<le> j \<and> j < p \<longrightarrow> \<not> validAlignment fl sl j) \<Longrightarrow>
   scanLoop fl sl d c m = Inr (Some (p + 1))"
proof (induction fl sl d c m rule: scanLoop.induct)
  case (1 fl sl d c m)
  from "1.prems" have cond: "c \<le> int (length fl) - int (length sl)"
    by (simp add: validAlignment_def)
  show ?case
  proof (cases "validAlignment fl sl c")
    case True
    with "1.prems" have "c = p" by force
    moreover have "matchesAt fl sl c = Inr True" using True by (simp add: matchesAt_eq)
    ultimately show ?thesis using cond "1.prems"(1) by (subst scanLoop.simps) simp
  next
    case False
    then have ma: "matchesAt fl sl c = Inr False" by (simp add: matchesAt_eq)
    from False "1.prems" have "c \<noteq> p" by auto
    with "1.prems" have "c + 1 \<le> p" by simp
    then have "scanLoop fl sl d (c + (if d = Up then - 1 else 1)) m = Inr (Some (p + 1))"
      using "1.IH" [OF _ ma] "1.prems" cond by simp
    with ma cond "1.prems"(1) show ?thesis by (subst scanLoop.simps) simp
  qed
qed

lemma scanLoop_Up_none:
  "d = Up \<Longrightarrow> (\<forall>j. j \<le> c \<longrightarrow> \<not> validAlignment fl sl j) \<Longrightarrow>
   scanLoop fl sl d c m = Inr m"
proof (induction fl sl d c m rule: scanLoop.induct)
  case (1 fl sl d c m)
  show ?case
  proof (cases "0 \<le> c")
    case True
    have ma: "matchesAt fl sl c = Inr False"
      using "1.prems" by (simp add: matchesAt_eq)
    have "scanLoop fl sl d (c + (if d = Up then - 1 else 1)) m = Inr m"
      using "1.IH" [OF _ ma] "1.prems" True by simp
    with ma True "1.prems"(1) show ?thesis by (subst scanLoop.simps) simp
  next
    case False
    with "1.prems"(1) show ?thesis by (subst scanLoop.simps) simp
  qed
qed

lemma scanLoop_Up_first:
  "d = Up \<Longrightarrow> validAlignment fl sl p \<Longrightarrow> p \<le> c \<Longrightarrow>
   (\<forall>j. p < j \<and> j \<le> c \<longrightarrow> \<not> validAlignment fl sl j) \<Longrightarrow>
   scanLoop fl sl d c m = Inr (Some (p + 1))"
proof (induction fl sl d c m rule: scanLoop.induct)
  case (1 fl sl d c m)
  from "1.prems" have cond: "0 \<le> c"
    by (simp add: validAlignment_def)
  show ?case
  proof (cases "validAlignment fl sl c")
    case True
    with "1.prems" have "c = p" by force
    moreover have "matchesAt fl sl c = Inr True" using True by (simp add: matchesAt_eq)
    ultimately show ?thesis using cond "1.prems"(1) by (subst scanLoop.simps) simp
  next
    case False
    then have ma: "matchesAt fl sl c = Inr False" by (simp add: matchesAt_eq)
    from False "1.prems" have "c \<noteq> p" by auto
    with "1.prems" have "p \<le> c - 1" by simp
    then have "scanLoop fl sl d (c + (if d = Up then - 1 else 1)) m = Inr (Some (p + 1))"
      using "1.IH" [OF _ ma] "1.prems" cond by simp
    with ma cond "1.prems"(1) show ?thesis by (subst scanLoop.simps) simp
  qed
qed

text \<open>Below a bound, a valid alignment has a greatest one; above, a least one.\<close>

lemma valid_least_from:
  assumes "validAlignment fl sl q" "c \<le> q"
  obtains p where "validAlignment fl sl p" "c \<le> p" "p \<le> q"
    "\<forall>j. c \<le> j \<and> j < p \<longrightarrow> \<not> validAlignment fl sl j"
proof -
  let ?P = "\<lambda>n. validAlignment fl sl (c + int n)"
  have "?P (nat (q - c))" using assms by simp
  then have l: "?P (LEAST n. ?P n)" and m: "(LEAST n. ?P n) \<le> nat (q - c)"
    by (rule LeastI, rule Least_le)
  have n: "\<not> ?P k" if "k < (LEAST n. ?P n)" for k using that by (rule not_less_Least)
  let ?p = "c + int (LEAST n. ?P n)"
  have "\<not> validAlignment fl sl j" if "c \<le> j \<and> j < ?p" for j
  proof -
    from that have "nat (j - c) < (LEAST n. ?P n)" by linarith
    then have "\<not> ?P (nat (j - c))" by (rule n)
    with that show ?thesis by simp
  qed
  moreover have "c \<le> ?p" by simp
  moreover have "?p \<le> q" using m assms(2) by linarith
  ultimately show ?thesis using l that by blast
qed

lemma valid_greatest_upto:
  assumes "validAlignment fl sl q" "q \<le> c"
  obtains p where "validAlignment fl sl p" "q \<le> p" "p \<le> c"
    "\<forall>j. p < j \<and> j \<le> c \<longrightarrow> \<not> validAlignment fl sl j"
proof -
  let ?P = "\<lambda>n. validAlignment fl sl (c - int n)"
  have "?P (nat (c - q))" using assms by simp
  then have l: "?P (LEAST n. ?P n)" and m: "(LEAST n. ?P n) \<le> nat (c - q)"
    by (rule LeastI, rule Least_le)
  have n: "\<not> ?P k" if "k < (LEAST n. ?P n)" for k using that by (rule not_less_Least)
  let ?p = "c - int (LEAST n. ?P n)"
  have "\<not> validAlignment fl sl j" if "?p < j \<and> j \<le> c" for j
  proof -
    from that have "nat (c - j) < (LEAST n. ?P n)" by linarith
    then have "\<not> ?P (nat (c - j))" by (rule n)
    with that show ?thesis by simp
  qed
  moreover have "?p \<le> c" by simp
  moreover have "q \<le> ?p" using m assms(2) by linarith
  ultimately show ?thesis using l that by blast
qed

subsection \<open>The columns of a valid alignment\<close>

lemma splitLF_nonempty: "splitLF s \<noteq> []"
  by (induction s) (auto split: list.splits)

lemma validAlignment_includes:
  "validAlignment fl sl p \<Longrightarrow> k < length sl \<Longrightarrow> str_includes (fl ! (nat p + k)) (sl ! k)"
  by (simp add: validAlignment_def list_all_iff)

lemma validAlignment_bounds:
  assumes "validAlignment fl sl p" "sl \<noteq> []"
  shows "0 \<le> p" "p + int (length sl) \<le> int (length fl)" "p < int (length fl)"
    "nat (p + int (length sl) - 1) = nat p + (length sl - 1)"
proof -
  from assms(2) have l: "0 < length sl" by simp
  from assms(1) show b: "0 \<le> p" "p + int (length sl) \<le> int (length fl)"
    by (simp_all add: validAlignment_def)
  from b l show "p < int (length fl)" by linarith
  from b l show "nat (p + int (length sl) - 1) = nat p + (length sl - 1)" by linarith
qed

lemma indexOf_valid_nonneg:
  "str_includes l t \<Longrightarrow> 0 \<le> indexOf l t"
  by (erule indexOf_includes) simp

lemma findColumn_includes:
  "str_includes l t \<Longrightarrow> findColumn (Some l) t = Inr (indexOf l t + 1)"
  using indexOf_valid_nonneg [of l t] by (simp add: findColumn_def Let_def)

lemma findColumn_first:
  assumes "validAlignment fl sl p" "sl \<noteq> []"
  shows "findColumn (at fl p) (sl ! 0) = Inr (indexOf (fl ! nat p) (sl ! 0) + 1)"
proof -
  have "0 \<le> p" "p < int (length fl)"
    using validAlignment_bounds [OF assms] by blast+
  then have "at fl p = Some (fl ! nat p)" by (rule at_in_range)
  moreover have "str_includes (fl ! nat p) (sl ! 0)"
    using validAlignment_includes [OF assms(1), of 0] assms(2) by simp
  ultimately show ?thesis by (simp add: findColumn_includes)
qed

lemma findColumn_last:
  assumes "validAlignment fl sl p" "sl \<noteq> []"
  shows "findColumn (at fl (p + int (length sl) - 1)) (sl ! (length sl - 1)) =
         Inr (indexOf (fl ! nat (p + int (length sl) - 1)) (sl ! (length sl - 1)) + 1)"
proof -
  from assms(2) have "0 < length sl" by simp
  with validAlignment_bounds(1,2) [OF assms]
  have "0 \<le> p + int (length sl) - 1" "p + int (length sl) - 1 < int (length fl)"
    by linarith+
  then have "at fl (p + int (length sl) - 1) = Some (fl ! nat (p + int (length sl) - 1))"
    by (rule at_in_range)
  moreover have "nat (p + int (length sl) - 1) = nat p + (length sl - 1)"
    by (rule validAlignment_bounds(4) [OF assms])
  moreover have "str_includes (fl ! (nat p + (length sl - 1))) (sl ! (length sl - 1))"
    using validAlignment_includes [OF assms(1), of "length sl - 1"] assms(2) by simp
  ultimately show ?thesis by (simp add: findColumn_includes)
qed

lemma spanFrom_valid:
  assumes v: "validAlignment fl sl p" and ne: "sl \<noteq> []"
  shows "spanFrom fl sl (p + 1) = Found (spanOfMatch fl sl p)"
proof -
  have a: "0 \<le> indexOf (fl ! nat p) (sl ! 0)"
    using validAlignment_includes [OF v, of 0] ne by (simp add: indexOf_valid_nonneg)
  have "nat (p + int (length sl) - 1) = nat p + (length sl - 1)"
    by (rule validAlignment_bounds(4) [OF v ne])
  then have b: "0 \<le> indexOf (fl ! nat (p + int (length sl) - 1)) (sl ! (length sl - 1))"
    using validAlignment_includes [OF v, of "length sl - 1"] ne
    by (simp add: indexOf_valid_nonneg)
  have s: "p + 1 - 1 = p" by simp
  show ?thesis
    unfolding spanFrom_def Let_def s findColumn_first [OF v ne] findColumn_last [OF v ne]
      spanOfMatch_def
    using a b by simp
qed

subsection \<open>The search\<close>

lemma scan_eq: "scan fl sl c d m = scanLoop fl sl d c m"
  by (simp add: scan_def)

lemma search_none:
  assumes "\<forall>j. \<not> validAlignment fl sl j"
  shows "searchMatchStartLine fl sl hintLine = Inr None"
proof -
  have "scan fl sl c Down None = Inr None" for c
    unfolding scan_eq using assms by (intro scanLoop_Down_none) simp_all
  moreover have "scan fl sl c Up None = Inr None" for c
    unfolding scan_eq using assms by (intro scanLoop_Up_none) simp_all
  ultimately show ?thesis
    by (simp add: searchMatchStartLine_def Let_def split: option.split)
qed

lemma search_unhinted:
  assumes "\<forall>h. hintLine = Some h \<longrightarrow> \<not> (0 < h \<and> h \<le> int (length fl))"
    and "validAlignment fl sl p" and "\<forall>j. j < p \<longrightarrow> \<not> validAlignment fl sl j"
  shows "searchMatchStartLine fl sl hintLine = Inr (Some (p + 1))"
proof -
  from assms(2) have "0 \<le> p" by (simp add: validAlignment_def)
  then have "scan fl sl 0 Down None = Inr (Some (p + 1))"
    unfolding scan_eq using assms(2,3) by (intro scanLoop_Down_first) simp_all
  with assms(1) show ?thesis
    by (auto simp: searchMatchStartLine_def Let_def split: option.split)
qed

lemma search_forward:
  assumes "0 < h" "h \<le> int (length fl)"
    and "validAlignment fl sl p" "h - 1 \<le> p"
    and "\<forall>j. h - 1 \<le> j \<and> j < p \<longrightarrow> \<not> validAlignment fl sl j"
  shows "searchMatchStartLine fl sl (Some h) = Inr (Some (p + 1))"
proof -
  have "scan fl sl (h - 1) Down None = Inr (Some (p + 1))"
    unfolding scan_eq using assms(3-5) by (intro scanLoop_Down_first) simp_all
  with assms(1,2) show ?thesis
    by (simp add: searchMatchStartLine_def Let_def)
qed

lemma search_backward:
  assumes "0 < h" "h \<le> int (length fl)"
    and "validAlignment fl sl p" "p < h - 1"
    and "\<forall>j. p < j \<longrightarrow> \<not> validAlignment fl sl j"
  shows "searchMatchStartLine fl sl (Some h) = Inr (Some (p + 1))"
proof -
  have "scan fl sl (h - 1) Down None = Inr None"
    unfolding scan_eq using assms(4,5) by (intro scanLoop_Down_none) simp_all
  moreover have "scan fl sl (h - 1 - 1) Up None = Inr (Some (p + 1))"
    unfolding scan_eq using assms(3-5) by (intro scanLoop_Up_first) simp_all
  ultimately show ?thesis using assms(1,2)
    by (simp add: searchMatchStartLine_def Let_def)
qed

text \<open>Every run of the search ends in one of the four ways above.\<close>

lemma search_cases:
  obtains
    (none) "\<forall>j. \<not> validAlignment fl sl j" "searchMatchStartLine fl sl hintLine = Inr None"
  | (unhinted) p where
      "\<forall>h. hintLine = Some h \<longrightarrow> \<not> (0 < h \<and> h \<le> int (length fl))"
      "validAlignment fl sl p" "\<forall>j. j < p \<longrightarrow> \<not> validAlignment fl sl j"
      "searchMatchStartLine fl sl hintLine = Inr (Some (p + 1))"
  | (forward) h p where
      "hintLine = Some h" "0 < h" "h \<le> int (length fl)"
      "validAlignment fl sl p" "h - 1 \<le> p"
      "\<forall>j. h - 1 \<le> j \<and> j < p \<longrightarrow> \<not> validAlignment fl sl j"
      "searchMatchStartLine fl sl hintLine = Inr (Some (p + 1))"
  | (backward) h p where
      "hintLine = Some h" "0 < h" "h \<le> int (length fl)"
      "validAlignment fl sl p" "p < h - 1"
      "\<forall>j. p < j \<longrightarrow> \<not> validAlignment fl sl j"
      "searchMatchStartLine fl sl hintLine = Inr (Some (p + 1))"
proof (cases "\<exists>q. validAlignment fl sl q")
  case False
  then have n: "\<forall>j. \<not> validAlignment fl sl j" by simp
  then show ?thesis using search_none none by blast
next
  case True
  then obtain q where q: "validAlignment fl sl q" ..
  then have q0: "0 \<le> q" by (simp add: validAlignment_def)
  show ?thesis
  proof (cases "\<exists>h. hintLine = Some h \<and> 0 < h \<and> h \<le> int (length fl)")
    case False
    then have u: "\<forall>h. hintLine = Some h \<longrightarrow> \<not> (0 < h \<and> h \<le> int (length fl))" by blast
    from q q0 obtain p where p: "validAlignment fl sl p"
      "\<forall>j. 0 \<le> j \<and> j < p \<longrightarrow> \<not> validAlignment fl sl j"
      by (rule valid_least_from)
    then have "\<forall>j. j < p \<longrightarrow> \<not> validAlignment fl sl j"
      by (auto simp: validAlignment_def)
    with u p(1) show ?thesis using search_unhinted unhinted by blast
  next
    case True
    then obtain h where h: "hintLine = Some h" "0 < h" "h \<le> int (length fl)" by blast
    show ?thesis
    proof (cases "\<exists>r. validAlignment fl sl r \<and> h - 1 \<le> r")
      case True
      then obtain r where "validAlignment fl sl r" "h - 1 \<le> r" by blast
      then obtain p where p: "validAlignment fl sl p" "h - 1 \<le> p"
        "\<forall>j. h - 1 \<le> j \<and> j < p \<longrightarrow> \<not> validAlignment fl sl j"
        by (rule valid_least_from)
      then have "searchMatchStartLine fl sl hintLine = Inr (Some (p + 1))"
        using h search_forward by blast
      with h p show ?thesis using forward by blast
    next
      case False
      then have above: "\<forall>j. h - 1 \<le> j \<longrightarrow> \<not> validAlignment fl sl j" by blast
      with q have "\<not> h - 1 \<le> q" by blast
      then have "q \<le> h - 1 - 1" by simp
      with q obtain p where p: "validAlignment fl sl p" "p \<le> h - 1 - 1"
        "\<forall>j. p < j \<and> j \<le> h - 1 - 1 \<longrightarrow> \<not> validAlignment fl sl j"
        by (rule valid_greatest_upto)
      have gt: "\<forall>j. p < j \<longrightarrow> \<not> validAlignment fl sl j"
      proof (intro allI impI)
        fix j :: int
        assume "p < j"
        then consider "j \<le> h - 1 - 1" | "h - 1 \<le> j" by linarith
        then show "\<not> validAlignment fl sl j"
          using p(3) above \<open>p < j\<close> by cases blast+
      qed
      from p(2) have lt: "p < h - 1" by simp
      have "searchMatchStartLine fl sl hintLine = Inr (Some (p + 1))"
        using h p(1) lt gt search_backward by blast
      with h p(1) lt gt show ?thesis using backward by blast
    qed
  qed
qed

subsection \<open>First occurrences\<close>

lemma firstOccurrence_iff:
  "firstOccurrence s t k \<longleftrightarrow> occursAt s t k \<and> (\<forall>j<k. \<not> occursAt s t j)"
  by (auto simp: firstOccurrence_def list_all_iff)

lemma firstOccurrence_unique:
  "firstOccurrence s t k \<Longrightarrow> firstOccurrence s t k' \<Longrightarrow> k = k'"
  unfolding firstOccurrence_iff by (metis nat_neq_iff)

lemma indexOf_firstOccurrence:
  assumes "str_includes s t"
  shows "\<exists>k. indexOf s t = int k \<and> firstOccurrence s t k"
  using assms by (rule indexOf_includes) (auto simp: firstOccurrence_iff)

lemma firstOccurrence_indexOf: "firstOccurrence s t k \<Longrightarrow> indexOf s t = int k"
  unfolding firstOccurrence_iff by (rule indexOf_first) auto

subsection \<open>The whole function\<close>

lemma matchesAt_True_iff: "matchesAt fl sl i = Inr True \<longleftrightarrow> validAlignment fl sl i"
  by (simp add: matchesAt_eq)

lemma gsp_of_search:
  assumes "searchMatchStartLine (linesOf D) (linesOf S) h = Inr (Some (p + 1))"
    and "validAlignment (linesOf D) (linesOf S) p"
  shows "getSelectionPosition D S h = Found (spanOfMatch (linesOf D) (linesOf S) p)"
  using assms spanFrom_valid [OF assms(2) splitLF_nonempty]
  by (simp add: getSelectionPosition_def Let_def)

lemma gsp_none:
  assumes "\<forall>j. \<not> validAlignment (linesOf D) (linesOf S) j"
  shows "getSelectionPosition D S h = NotFound"
  using search_none [OF assms, of h] by (simp add: getSelectionPosition_def Let_def)

lemma gsp_cases:
  obtains
    (none) "\<forall>j. \<not> validAlignment (linesOf D) (linesOf S) j"
      "getSelectionPosition D S h = NotFound"
  | (found) p where "validAlignment (linesOf D) (linesOf S) p"
      "getSelectionPosition D S h = Found (spanOfMatch (linesOf D) (linesOf S) p)"
proof (cases rule: search_cases [of "linesOf D" "linesOf S" h])
  case none
  then show ?thesis using gsp_none that(1) by blast
next
  case (unhinted p)
  then show ?thesis using gsp_of_search that(2) by blast
next
  case (forward h' p)
  then show ?thesis using gsp_of_search that(2) by blast
next
  case (backward h' p)
  then show ?thesis using gsp_of_search that(2) by blast
qed

lemma occursAt_self: "occursAt s s 0"
  by (simp add: occursAt_def)

lemma occursAt_empty: "occursAt s [] 0"
  by (simp add: occursAt_def)

lemma verbatim_valid:
  assumes "take (length sl) (drop i fl) = sl" and "sl \<noteq> []"
  shows "validAlignment fl sl (int i)"
proof -
  have "length (take (length sl) (drop i fl)) = length sl" using assms(1) by simp
  then have "min (length sl) (length fl - i) = length sl" by simp
  moreover have "0 < length sl" using assms(2) by simp
  ultimately have le: "i + length sl \<le> length fl" by linarith
  have "str_includes (fl ! (i + k)) (sl ! k)" if "k < length sl" for k
  proof -
    have "sl ! k = take (length sl) (drop i fl) ! k" using assms(1) by simp
    also have "\<dots> = fl ! (i + k)" using that le by simp
    finally show ?thesis using occursAt_self str_includes_iff by metis
  qed
  with le show ?thesis
    by (simp add: validAlignment_def list_all_iff)
qed

lemma gsp_unhinted:
  assumes "\<forall>h'. h = Some h' \<longrightarrow> \<not> (0 < h' \<and> h' \<le> int (length (linesOf D)))"
    and "validAlignment (linesOf D) (linesOf S) p"
    and "\<forall>j. j < p \<longrightarrow> \<not> validAlignment (linesOf D) (linesOf S) j"
  shows "getSelectionPosition D S h = Found (spanOfMatch (linesOf D) (linesOf S) p)"
  using search_unhinted [OF assms] assms(2) by (rule gsp_of_search)

lemma gsp_hint_at:
  assumes "validAlignment (linesOf D) (linesOf S) p"
  shows "getSelectionPosition D S (Some (p + 1)) = Found (spanOfMatch (linesOf D) (linesOf S) p)"
proof -
  have b: "0 \<le> p" "p < int (length (linesOf D))"
    using validAlignment_bounds [OF assms splitLF_nonempty] by blast+
  have "searchMatchStartLine (linesOf D) (linesOf S) (Some (p + 1)) = Inr (Some (p + 1))"
  proof (rule search_forward)
    show "0 < p + 1" "p + 1 \<le> int (length (linesOf D))" using b by simp_all
    show "validAlignment (linesOf D) (linesOf S) p" by (rule assms)
    show "p + 1 - 1 \<le> p" by simp
    show "\<forall>j. p + 1 - 1 \<le> j \<and> j < p \<longrightarrow> \<not> validAlignment (linesOf D) (linesOf S) j"
      by auto
  qed
  then show ?thesis using assms by (rule gsp_of_search)
qed

lemma gsp_unique:
  assumes v: "validAlignment (linesOf D) (linesOf S) p"
    and u: "\<forall>q. validAlignment (linesOf D) (linesOf S) q \<longrightarrow> q = p"
  shows "getSelectionPosition D S h = Found (spanOfMatch (linesOf D) (linesOf S) p)"
proof (cases rule: gsp_cases [of D S h])
  case none
  with v show ?thesis by blast
next
  case (found q)
  with u show ?thesis by auto
qed

text \<open>
  No call throws, and the fields of a returned span are bounded below: the lines and the
  start column by \<open>1\<close>, the end column by \<open>0\<close>, and by \<open>1\<close> when the last line of the
  selection is not empty.
\<close>

lemma never_thrown: "getSelectionPosition D S h \<noteq> Thrown e"
  by (cases rule: gsp_cases [of D S h]) simp_all

lemma span_fields_bounds:
  assumes "getSelectionPosition D S h = Found r"
  shows "1 \<le> startLine r" "1 \<le> startColumn r" "1 \<le> endLine r" "0 \<le> endColumn r"
    "linesOf S ! (length (linesOf S) - 1) \<noteq> [] \<Longrightarrow> 1 \<le> endColumn r"
proof -
  let ?fl = "linesOf D" and ?sl = "linesOf S"
  have ne: "?sl \<noteq> []" by (rule splitLF_nonempty)
  from assms obtain p where v: "validAlignment ?fl ?sl p" and r: "r = spanOfMatch ?fl ?sl p"
    by (cases rule: gsp_cases [of D S h]) simp_all
  have p: "0 \<le> p" by (rule validAlignment_bounds(1) [OF v ne])
  have a: "0 \<le> indexOf (?fl ! nat p) (?sl ! 0)"
    using validAlignment_includes [OF v, of 0] ne by (simp add: indexOf_valid_nonneg)
  have "nat (p + int (length ?sl) - 1) = nat p + (length ?sl - 1)"
    by (rule validAlignment_bounds(4) [OF v ne])
  then have b: "0 \<le> indexOf (?fl ! nat (p + int (length ?sl) - 1)) (?sl ! (length ?sl - 1))"
    using validAlignment_includes [OF v, of "length ?sl - 1"] ne
    by (simp add: indexOf_valid_nonneg)
  from ne have l: "0 < length ?sl" by simp
  have e: "endLine (spanOfMatch ?fl ?sl p) = p + int (length ?sl)"
    by (simp add: spanOfMatch_def)
  show "1 \<le> startLine r" using p unfolding r spanOfMatch_def by simp
  show "1 \<le> startColumn r" using a unfolding r spanOfMatch_def by simp
  show "1 \<le> endLine r" using p l unfolding r e by linarith
  show "0 \<le> endColumn r" using b unfolding r spanOfMatch_def by simp
  show "1 \<le> endColumn r" if "?sl ! (length ?sl - 1) \<noteq> []"
  proof -
    from that have "0 < length (?sl ! (length ?sl - 1))" by simp
    moreover have "endColumn (spanOfMatch ?fl ?sl p) =
        indexOf (?fl ! nat (p + int (length ?sl) - 1)) (?sl ! (length ?sl - 1))
        + int (length (?sl ! (length ?sl - 1)))"
      by (simp add: spanOfMatch_def)
    ultimately show ?thesis using b unfolding r by linarith
  qed
qed

lemma indexOf_empty: "indexOf s [] = 0"
  using indexOf_first [of s "[]" 0] by (simp add: occursAt_def)

subsection \<open>Concrete files\<close>

lemma aba_lines: "linesOf (''a'' @ [LF] @ ''b'' @ [LF] @ ''a'') = [''a'', ''b'', ''a'']"
  by code_simp

lemma abc_lines: "linesOf (''a'' @ [LF] @ ''b'' @ [LF] @ ''c'') = [''a'', ''b'', ''c'']"
  by code_simp

lemma a_lines: "linesOf ''a'' = [''a'']"
  by code_simp

lemma d_lines: "linesOf ''d'' = [''d'']"
  by code_simp

lemma valid3_range:
  "validAlignment [x, y, z] [t] q \<Longrightarrow> q = 0 \<or> q = 1 \<or> q = 2"
  by (auto simp: validAlignment_def)

lemma aba_matches:
  "matchesAt [''a'', ''b'', ''a''] [''a''] q = Inr True \<longleftrightarrow> q = 0 \<or> q = 2"
proof
  assume m: "matchesAt [''a'', ''b'', ''a''] [''a''] q = Inr True"
  then have "q = 0 \<or> q = 1 \<or> q = 2" by (simp add: matchesAt_eq valid3_range)
  moreover have "matchesAt [''a'', ''b'', ''a''] [''a''] 1 \<noteq> Inr True" by code_simp
  ultimately show "q = 0 \<or> q = 2" using m by auto
next
  have "matchesAt [''a'', ''b'', ''a''] [''a''] 0 = Inr True" by code_simp
  moreover have "matchesAt [''a'', ''b'', ''a''] [''a''] 2 = Inr True" by code_simp
  moreover assume "q = 0 \<or> q = 2"
  ultimately show "matchesAt [''a'', ''b'', ''a''] [''a''] q = Inr True" by auto
qed

lemma abc_matches_a:
  "matchesAt [''a'', ''b'', ''c''] [''a''] q = Inr True \<longleftrightarrow> q = 0"
proof
  assume m: "matchesAt [''a'', ''b'', ''c''] [''a''] q = Inr True"
  then have "q = 0 \<or> q = 1 \<or> q = 2" by (simp add: matchesAt_eq valid3_range)
  moreover have "matchesAt [''a'', ''b'', ''c''] [''a''] 1 \<noteq> Inr True" by code_simp
  moreover have "matchesAt [''a'', ''b'', ''c''] [''a''] 2 \<noteq> Inr True" by code_simp
  ultimately show "q = 0" using m by blast
next
  have "matchesAt [''a'', ''b'', ''c''] [''a''] 0 = Inr True" by code_simp
  moreover assume "q = 0"
  ultimately show "matchesAt [''a'', ''b'', ''c''] [''a''] q = Inr True" by blast
qed

lemma abc_matches_d:
  "matchesAt [''a'', ''b'', ''c''] [''d''] q \<noteq> Inr True"
proof
  assume m: "matchesAt [''a'', ''b'', ''c''] [''d''] q = Inr True"
  then have "q = 0 \<or> q = 1 \<or> q = 2" by (simp add: matchesAt_eq valid3_range)
  moreover have "matchesAt [''a'', ''b'', ''c''] [''d''] 0 \<noteq> Inr True" by code_simp
  moreover have "matchesAt [''a'', ''b'', ''c''] [''d''] 1 \<noteq> Inr True" by code_simp
  moreover have "matchesAt [''a'', ''b'', ''c''] [''d''] 2 \<noteq> Inr True" by code_simp
  ultimately show False using m by blast
qed

section \<open>The claims\<close>

text \<open>
  Claim C1, as amended.  When the selection stands verbatim as a block of lines of the
  file starting at the 0-based index \<open>i\<close>, the call without a hint finds a span whose
  \<open>startLine\<close> is at most \<open>i + 1\<close>, and it is \<open>i + 1\<close> when no index before \<open>i\<close> is a
  valid alignment: the first valid alignment of the forward scan wins.
\<close>

theorem C1_no_hint_first_block:
  assumes "take (length (linesOf S)) (drop i (linesOf D)) = linesOf S"
  shows "\<exists>r. getSelectionPosition D S None = Found r \<and> startLine r \<le> int i + 1 \<and>
           ((\<forall>j<i. matchesAt (linesOf D) (linesOf S) (int j) \<noteq> Inr True) \<longrightarrow>
              startLine r = int i + 1)"
proof -
  have v: "validAlignment (linesOf D) (linesOf S) (int i)"
    using assms splitLF_nonempty by (rule verbatim_valid)
  then obtain p where p: "validAlignment (linesOf D) (linesOf S) p" "0 \<le> p" "p \<le> int i"
    "\<forall>j. 0 \<le> j \<and> j < p \<longrightarrow> \<not> validAlignment (linesOf D) (linesOf S) j"
    by (rule valid_least_from [of _ _ _ 0]) simp_all
  then have n: "\<forall>j. j < p \<longrightarrow> \<not> validAlignment (linesOf D) (linesOf S) j"
    by (auto simp: validAlignment_def)
  have g: "getSelectionPosition D S None = Found (spanOfMatch (linesOf D) (linesOf S) p)"
    using _ p(1) n by (rule gsp_unhinted) simp
  have "p = int i" if "\<forall>j<i. matchesAt (linesOf D) (linesOf S) (int j) \<noteq> Inr True"
  proof (rule ccontr)
    assume "p \<noteq> int i"
    with p(2,3) have "nat p < i" by linarith
    with that have "matchesAt (linesOf D) (linesOf S) (int (nat p)) \<noteq> Inr True" by blast
    with p(1,2) show False by (simp add: matchesAt_eq)
  qed
  with g p(3) show ?thesis by (simp add: spanOfMatch_def)
qed

theorem C1_witness:
  "take (length (linesOf ''a'')) (drop 1 (linesOf (''b'' @ [LF] @ ''a''))) = linesOf ''a'' \<and>
   (\<exists>r. getSelectionPosition (''b'' @ [LF] @ ''a'') ''a'' None = Found r \<and> startLine r = 2)"
proof -
  have v: "take (length (linesOf ''a'')) (drop 1 (linesOf (''b'' @ [LF] @ ''a''))) = linesOf ''a''"
    by code_simp
  have n0: "matchesAt (linesOf (''b'' @ [LF] @ ''a'')) (linesOf ''a'') (int 0) \<noteq> Inr True"
    by code_simp
  have n: "\<forall>j<1. matchesAt (linesOf (''b'' @ [LF] @ ''a'')) (linesOf ''a'') (int j) \<noteq> Inr True"
    using n0 by simp
  from C1_no_hint_first_block [OF v] n
  have "\<exists>r. getSelectionPosition (''b'' @ [LF] @ ''a'') ''a'' None = Found r \<and> startLine r = 2"
    by auto
  with v show ?thesis by (rule conjI)
qed

text \<open>
  The claim as written fails when an earlier line already matches: in the file of the two
  lines \<open>a\<close>, \<open>a\<close> the selection \<open>a\<close> stands verbatim at index \<open>1\<close>, and the call
  returns \<open>startLine = 1\<close>, not \<open>2\<close>.
\<close>

theorem C1_counterexample:
  "take (length (linesOf ''a'')) (drop 1 (linesOf (''a'' @ [LF] @ ''a''))) = linesOf ''a'' \<and>
   getSelectionPosition (''a'' @ [LF] @ ''a'') ''a'' None =
     Found \<lparr> startLine = 1, startColumn = 1, endLine = 1, endColumn = 1 \<rparr> \<and>
   getSelectionPosition (''a'' @ [LF] @ ''a'') ''a'' None \<noteq>
     Found \<lparr> startLine = 1 + 1, startColumn = 1, endLine = 1 + 1, endColumn = 1 \<rparr>"
  by code_simp

text \<open>
  Claim C2 says that the four fields of a returned span are at least \<open>1\<close>.  The code
  returns \<open>endColumn = 0\<close> when the last line of the selection is empty, as it is for a
  selection that ends in a line feed: here the file of the lines \<open>a\<close>, \<open>b\<close> and the
  selection \<open>a\<close> followed by a line feed.
\<close>

theorem C2_endColumn_zero:
  "getSelectionPosition (''a'' @ [LF] @ ''b'') (''a'' @ [LF]) None =
     Found \<lparr> startLine = 1, startColumn = 1, endLine = 2, endColumn = 0 \<rparr>"
  by code_simp

text \<open>
  Claim C3.  A returned span comes from an index \<open>i\<close> at which \<open>matchesAt\<close> holds:
  \<open>startLine = i + 1\<close>, \<open>endLine = i + selLen\<close>, \<open>startColumn\<close> is the 1-based position of
  the first occurrence of the first line of the selection in line \<open>i\<close> of the file, and
  \<open>endColumn\<close> is the 1-based position of the first occurrence of the last line of the
  selection in the last matched line, plus the length of that line of the selection,
  minus one.  For the selection \<open>const x = 1;\<close> found at the line
  \<open>  const x = 1; // comment\<close> the columns are \<open>3\<close> and \<open>14\<close>.
\<close>

theorem C3_span_of_match:
  assumes "getSelectionPosition D S h = Found r"
  shows "(\<exists>i k1 k2.
            matchesAt (linesOf D) (linesOf S) i = Inr True \<and>
            startLine r = i + 1 \<and>
            endLine r = i + int (length (linesOf S)) \<and>
            firstOccurrence (linesOf D ! nat i) (linesOf S ! 0) k1 \<and>
            startColumn r = int k1 + 1 \<and>
            firstOccurrence (linesOf D ! nat (endLine r - 1))
              (linesOf S ! (length (linesOf S) - 1)) k2 \<and>
            endColumn r = int k2 + 1 + int (length (linesOf S ! (length (linesOf S) - 1))) - 1) \<and>
         (S = ''const x = 1;'' \<and>
          linesOf D ! nat (startLine r - 1) = ''  const x = 1; // comment'' \<longrightarrow>
            startColumn r = 3 \<and> endColumn r = 14)"
proof -
  let ?fl = "linesOf D" and ?sl = "linesOf S"
  have ne: "?sl \<noteq> []" by (rule splitLF_nonempty)
  from assms obtain p where v: "validAlignment ?fl ?sl p" and r: "r = spanOfMatch ?fl ?sl p"
    by (cases rule: gsp_cases [of D S h]) simp_all
  have e: "nat (p + int (length ?sl) - 1) = nat p + (length ?sl - 1)"
    by (rule validAlignment_bounds(4) [OF v ne])
  obtain k1 where k1: "indexOf (?fl ! nat p) (?sl ! 0) = int k1"
      "firstOccurrence (?fl ! nat p) (?sl ! 0) k1"
    using indexOf_firstOccurrence validAlignment_includes [OF v, of 0] ne by fastforce
  obtain k2 where k2:
      "indexOf (?fl ! nat (p + int (length ?sl) - 1)) (?sl ! (length ?sl - 1)) = int k2"
      "firstOccurrence (?fl ! nat (p + int (length ?sl) - 1)) (?sl ! (length ?sl - 1)) k2"
    using indexOf_firstOccurrence validAlignment_includes [OF v, of "length ?sl - 1"] ne e
    by fastforce
  have general: "matchesAt ?fl ?sl p = Inr True \<and>
            startLine r = p + 1 \<and>
            endLine r = p + int (length ?sl) \<and>
            firstOccurrence (?fl ! nat p) (?sl ! 0) k1 \<and>
            startColumn r = int k1 + 1 \<and>
            firstOccurrence (?fl ! nat (endLine r - 1)) (?sl ! (length ?sl - 1)) k2 \<and>
            endColumn r = int k2 + 1 + int (length (?sl ! (length ?sl - 1))) - 1"
    using v k1 k2 unfolding r spanOfMatch_def by (simp add: matchesAt_eq)
  have example: "startColumn r = 3 \<and> endColumn r = 14"
    if "S = ''const x = 1;''" "?fl ! nat (startLine r - 1) = ''  const x = 1; // comment''"
  proof -
    have sl: "?sl = [''const x = 1;'']" unfolding that(1) by code_simp
    have line: "?fl ! nat p = ''  const x = 1; // comment''"
      using that(2) unfolding r spanOfMatch_def by simp
    have ix: "indexOf ''  const x = 1; // comment'' ''const x = 1;'' = 2" by code_simp
    show ?thesis unfolding r spanOfMatch_def using line ix by (simp add: sl)
  qed
  from general example show ?thesis by blast
qed

theorem C3_witness:
  "getSelectionPosition ''  const x = 1; // comment'' ''const x = 1;'' None =
     Found \<lparr> startLine = 1, startColumn = 3, endLine = 1, endColumn = 14 \<rparr> \<and>
   startColumn \<lparr> startLine = 1, startColumn = 3, endLine = 1, endColumn = 14 \<rparr> = 3 \<and>
   endColumn \<lparr> startLine = 1, startColumn = 3, endLine = 1, endColumn = 14 \<rparr> = 14"
proof -
  let ?r = "\<lparr> startLine = 1, startColumn = 3, endLine = 1, endColumn = 14 \<rparr>"
  have g: "getSelectionPosition ''  const x = 1; // comment'' ''const x = 1;'' None = Found ?r"
    by code_simp
  have l: "linesOf ''  const x = 1; // comment'' ! nat (startLine ?r - 1) =
           ''  const x = 1; // comment''"
    by code_simp
  from C3_span_of_match [OF g] l have "startColumn ?r = 3 \<and> endColumn ?r = 14"
    by blast
  with g show ?thesis by (rule conjI)
qed

text \<open>
  Claim C4.  When the selection has exactly two valid alignments \<open>p1 < p2\<close>, the hint
  \<open>p1 + 1\<close> gives \<open>startLine = p1 + 1\<close> and the hint \<open>p2 + 1\<close> gives
  \<open>startLine = p2 + 1\<close>: the forward scan from the hint tests the hinted line first.
\<close>

theorem C4_hint_at_either_match:
  assumes "matchesAt (linesOf D) (linesOf S) p1 = Inr True"
    and "matchesAt (linesOf D) (linesOf S) p2 = Inr True"
    and "p1 < p2"
    and "\<forall>q. matchesAt (linesOf D) (linesOf S) q = Inr True \<longrightarrow> q = p1 \<or> q = p2"
  shows "(\<exists>r. getSelectionPosition D S (Some (p1 + 1)) = Found r \<and> startLine r = p1 + 1) \<and>
         (\<exists>r. getSelectionPosition D S (Some (p2 + 1)) = Found r \<and> startLine r = p2 + 1)"
proof -
  have "validAlignment (linesOf D) (linesOf S) p1"
    using assms(1) by (simp add: matchesAt_eq)
  then have g1: "getSelectionPosition D S (Some (p1 + 1)) =
               Found (spanOfMatch (linesOf D) (linesOf S) p1)"
    by (rule gsp_hint_at)
  have "validAlignment (linesOf D) (linesOf S) p2"
    using assms(2) by (simp add: matchesAt_eq)
  then have g2: "getSelectionPosition D S (Some (p2 + 1)) =
               Found (spanOfMatch (linesOf D) (linesOf S) p2)"
    by (rule gsp_hint_at)
  have "startLine (spanOfMatch (linesOf D) (linesOf S) p1) = p1 + 1"
    and "startLine (spanOfMatch (linesOf D) (linesOf S) p2) = p2 + 1"
    by (simp_all add: spanOfMatch_def)
  with g1 g2 show ?thesis by blast
qed

theorem C4_witness:
  "(\<exists>r. getSelectionPosition (''a'' @ [LF] @ ''b'' @ [LF] @ ''a'') ''a'' (Some (0 + 1)) = Found r
        \<and> startLine r = 0 + 1) \<and>
   (\<exists>r. getSelectionPosition (''a'' @ [LF] @ ''b'' @ [LF] @ ''a'') ''a'' (Some (2 + 1)) = Found r
        \<and> startLine r = 2 + 1)"
proof (rule C4_hint_at_either_match)
  show "matchesAt (linesOf (''a'' @ [LF] @ ''b'' @ [LF] @ ''a'')) (linesOf ''a'') 0 = Inr True"
    unfolding aba_lines a_lines aba_matches by simp
  show "matchesAt (linesOf (''a'' @ [LF] @ ''b'' @ [LF] @ ''a'')) (linesOf ''a'') 2 = Inr True"
    unfolding aba_lines a_lines aba_matches by simp
  show "(0::int) < 2" by simp
  show "\<forall>q. matchesAt (linesOf (''a'' @ [LF] @ ''b'' @ [LF] @ ''a'')) (linesOf ''a'') q = Inr True
          \<longrightarrow> q = 0 \<or> q = 2"
    unfolding aba_lines a_lines aba_matches by simp
qed

text \<open>
  Claim C5.  When the selection has its only valid alignment at \<open>p\<close>, the hint \<open>p + 3\<close>
  still gives \<open>startLine = p + 1\<close>.  When the hint is a line of the file, the forward scan
  from the hint finds nothing and the backward scan assigns \<open>p + 1\<close>; when it lies past the
  end of the file it is not used, and the fallback scan gives the same line.
\<close>

theorem C5_backward_recovery:
  assumes "matchesAt (linesOf D) (linesOf S) p = Inr True"
    and "\<forall>q. matchesAt (linesOf D) (linesOf S) q = Inr True \<longrightarrow> q = p"
  shows "(\<exists>r. getSelectionPosition D S (Some (p + 3)) = Found r \<and> startLine r = p + 1) \<and>
         (p + 3 \<le> int (length (linesOf D)) \<longrightarrow>
            scan (linesOf D) (linesOf S) (p + 3 - 1) Down None = Inr None \<and>
            scan (linesOf D) (linesOf S) (p + 3 - 1 - 1) Up None = Inr (Some (p + 1)))"
proof -
  let ?fl = "linesOf D" and ?sl = "linesOf S"
  have v: "validAlignment ?fl ?sl p" using assms(1) by (simp add: matchesAt_eq)
  have u: "\<forall>q. validAlignment ?fl ?sl q \<longrightarrow> q = p" using assms(2) by (simp add: matchesAt_eq)
  have "getSelectionPosition D S (Some (p + 3)) = Found (spanOfMatch ?fl ?sl p)"
    using v u by (rule gsp_unique)
  then have first: "\<exists>r. getSelectionPosition D S (Some (p + 3)) = Found r \<and> startLine r = p + 1"
    by (simp add: spanOfMatch_def)
  have above: "\<not> validAlignment ?fl ?sl j" if "p < j" for j
    using u that by fastforce
  have down: "scan ?fl ?sl (p + 3 - 1) Down None = Inr None"
    unfolding scan_eq
  proof (rule scanLoop_Down_none)
    show "\<forall>j. p + 3 - 1 \<le> j \<longrightarrow> \<not> validAlignment ?fl ?sl j"
      using above by simp
  qed simp
  have up: "scan ?fl ?sl (p + 3 - 1 - 1) Up None = Inr (Some (p + 1))"
    unfolding scan_eq
  proof (rule scanLoop_Up_first)
    show "validAlignment ?fl ?sl p" by (rule v)
    show "p \<le> p + 3 - 1 - 1" by simp
    show "\<forall>j. p < j \<and> j \<le> p + 3 - 1 - 1 \<longrightarrow> \<not> validAlignment ?fl ?sl j"
      using above by simp
  qed simp
  from first down up show ?thesis by blast
qed

theorem C5_witness:
  "0 + 3 \<le> int (length (linesOf (''a'' @ [LF] @ ''b'' @ [LF] @ ''c''))) \<and>
   (\<exists>r. getSelectionPosition (''a'' @ [LF] @ ''b'' @ [LF] @ ''c'') ''a'' (Some (0 + 3)) = Found r
        \<and> startLine r = 0 + 1) \<and>
   scan (linesOf (''a'' @ [LF] @ ''b'' @ [LF] @ ''c'')) (linesOf ''a'') (0 + 3 - 1) Down None
     = Inr None \<and>
   scan (linesOf (''a'' @ [LF] @ ''b'' @ [LF] @ ''c'')) (linesOf ''a'') (0 + 3 - 1 - 1) Up None
     = Inr (Some (0 + 1))"
proof -
  have m: "matchesAt (linesOf (''a'' @ [LF] @ ''b'' @ [LF] @ ''c'')) (linesOf ''a'') 0 = Inr True"
    unfolding abc_lines a_lines abc_matches_a by simp
  have u: "\<forall>q. matchesAt (linesOf (''a'' @ [LF] @ ''b'' @ [LF] @ ''c'')) (linesOf ''a'') q
             = Inr True \<longrightarrow> q = 0"
    unfolding abc_lines a_lines abc_matches_a by simp
  have r: "0 + 3 \<le> int (length (linesOf (''a'' @ [LF] @ ''b'' @ [LF] @ ''c'')))"
    unfolding abc_lines by simp
  from C5_backward_recovery [OF m u] r show ?thesis by blast
qed

text \<open>
  Claim C6.  When the selection has exactly one valid alignment, the call returns one and
  the same span for every hint: absent, in range or out of range.
\<close>

theorem C6_hint_convergence:
  assumes "matchesAt (linesOf D) (linesOf S) p = Inr True"
    and "\<forall>q. matchesAt (linesOf D) (linesOf S) q = Inr True \<longrightarrow> q = p"
  shows "\<exists>r. startLine r = p + 1 \<and> (\<forall>h. getSelectionPosition D S h = Found r)"
proof -
  let ?fl = "linesOf D" and ?sl = "linesOf S"
  have v: "validAlignment ?fl ?sl p" using assms(1) by (simp add: matchesAt_eq)
  have u: "\<forall>q. validAlignment ?fl ?sl q \<longrightarrow> q = p" using assms(2) by (simp add: matchesAt_eq)
  have "getSelectionPosition D S h = Found (spanOfMatch ?fl ?sl p)" for h
    using v u by (rule gsp_unique)
  moreover have "startLine (spanOfMatch ?fl ?sl p) = p + 1" by (simp add: spanOfMatch_def)
  ultimately show ?thesis by blast
qed

theorem C6_witness:
  "\<exists>r. startLine r = 0 + 1 \<and>
       (\<forall>h. getSelectionPosition (''a'' @ [LF] @ ''b'' @ [LF] @ ''c'') ''a'' h = Found r)"
proof (rule C6_hint_convergence)
  show "matchesAt (linesOf (''a'' @ [LF] @ ''b'' @ [LF] @ ''c'')) (linesOf ''a'') 0 = Inr True"
    unfolding abc_lines a_lines abc_matches_a by simp
  show "\<forall>q. matchesAt (linesOf (''a'' @ [LF] @ ''b'' @ [LF] @ ''c'')) (linesOf ''a'') q = Inr True
          \<longrightarrow> q = 0"
    unfolding abc_lines a_lines abc_matches_a by simp
qed

text \<open>
  Claim C7.  A hint below \<open>1\<close> or above the number of lines of the file gives the result
  of the call without a hint.
\<close>

theorem C7_out_of_range_hint:
  "h < 1 \<or> h > int (length (linesOf D)) \<Longrightarrow>
   getSelectionPosition D S (Some h) = getSelectionPosition D S None"
  by (auto simp: getSelectionPosition_def searchMatchStartLine_def Let_def)

theorem C7_witness:
  "((7::int) < 1 \<or> 7 > int (length (linesOf (''a'' @ [LF] @ ''b'' @ [LF] @ ''a'')))) \<and>
   getSelectionPosition (''a'' @ [LF] @ ''b'' @ [LF] @ ''a'') ''a'' (Some 7) =
   getSelectionPosition (''a'' @ [LF] @ ''b'' @ [LF] @ ''a'') ''a'' None"
proof -
  have h: "(7::int) < 1 \<or> 7 > int (length (linesOf (''a'' @ [LF] @ ''b'' @ [LF] @ ''a'')))"
    unfolding aba_lines by simp
  from h C7_out_of_range_hint [OF h] show ?thesis by (rule conjI)
qed

text \<open>
  Claim C8.  When no index is a valid alignment the call returns \<open>null\<close> at the
  \<open>return\<close> after the scans, with every hint: nothing is thrown and no warning is logged.
\<close>

theorem C8_absent:
  assumes "\<forall>i. matchesAt (linesOf D) (linesOf S) i \<noteq> Inr True"
  shows "getSelectionPosition D S h = NotFound"
  using assms by (intro gsp_none) (simp add: matchesAt_eq)

theorem C8_witness:
  "getSelectionPosition (''a'' @ [LF] @ ''b'' @ [LF] @ ''c'') ''d'' (Some 2) = NotFound"
proof (rule C8_absent)
  show "\<forall>i. matchesAt (linesOf (''a'' @ [LF] @ ''b'' @ [LF] @ ''c'')) (linesOf ''d'') i \<noteq> Inr True"
    unfolding abc_lines d_lines using abc_matches_d by blast
qed

text \<open>
  Claim C9.  At an index where \<open>matchesAt\<close> holds both calls of \<open>findColumn\<close> return a
  column other than \<open>-1\<close>, so the guard on the columns does not fire; and no call of
  \<open>getSelectionPosition\<close> ends in that guard.  Empty lines of the selection are covered:
  \<open>indexOf\<close> of the empty string is \<open>0\<close>.
\<close>

theorem C9_columns_resolve:
  "(matchesAt (linesOf D) (linesOf S) i = Inr True \<longrightarrow>
      (\<exists>a b. findColumn (at (linesOf D) i) (linesOf S ! 0) = Inr a \<and> a \<noteq> - 1 \<and>
             findColumn (at (linesOf D) (i + int (length (linesOf S)) - 1))
               (linesOf S ! (length (linesOf S) - 1)) = Inr b \<and> b \<noteq> - 1) \<and>
      spanFrom (linesOf D) (linesOf S) (i + 1) \<noteq> ColumnAnomaly) \<and>
   getSelectionPosition D S h \<noteq> ColumnAnomaly"
proof (intro conjI impI)
  assume "matchesAt (linesOf D) (linesOf S) i = Inr True"
  then have v: "validAlignment (linesOf D) (linesOf S) i" by (simp add: matchesAt_eq)
  have ne: "linesOf S \<noteq> []" by (rule splitLF_nonempty)
  have a: "0 \<le> indexOf (linesOf D ! nat i) (linesOf S ! 0)"
    using validAlignment_includes [OF v, of 0] ne by (simp add: indexOf_valid_nonneg)
  have "nat (i + int (length (linesOf S)) - 1) = nat i + (length (linesOf S) - 1)"
    by (rule validAlignment_bounds(4) [OF v ne])
  then have b: "0 \<le> indexOf (linesOf D ! nat (i + int (length (linesOf S)) - 1))
                      (linesOf S ! (length (linesOf S) - 1))"
    using validAlignment_includes [OF v, of "length (linesOf S) - 1"] ne
    by (simp add: indexOf_valid_nonneg)
  from a b show "\<exists>a b. findColumn (at (linesOf D) i) (linesOf S ! 0) = Inr a \<and> a \<noteq> - 1 \<and>
             findColumn (at (linesOf D) (i + int (length (linesOf S)) - 1))
               (linesOf S ! (length (linesOf S) - 1)) = Inr b \<and> b \<noteq> - 1"
    unfolding findColumn_first [OF v ne] findColumn_last [OF v ne] by simp
  show "spanFrom (linesOf D) (linesOf S) (i + 1) \<noteq> ColumnAnomaly"
    by (simp add: spanFrom_valid [OF v ne])
next
  show "getSelectionPosition D S h \<noteq> ColumnAnomaly"
    by (cases rule: gsp_cases [of D S h]) simp_all
qed

theorem C9_witness:
  "matchesAt (linesOf []) (linesOf []) 0 = Inr True \<and>
   ((\<exists>a b. findColumn (at (linesOf []) 0) (linesOf [] ! 0) = Inr a \<and> a \<noteq> - 1 \<and>
          findColumn (at (linesOf []) (0 + int (length (linesOf [])) - 1))
            (linesOf [] ! (length (linesOf []) - 1)) = Inr b \<and> b \<noteq> - 1) \<and>
    spanFrom (linesOf []) (linesOf []) (0 + 1) \<noteq> ColumnAnomaly)"
proof -
  have m: "matchesAt (linesOf []) (linesOf []) 0 = Inr True" by code_simp
  from C9_columns_resolve [of "[]" "[]" 0 None] m
  have "(\<exists>a b. findColumn (at (linesOf []) 0) (linesOf [] ! 0) = Inr a \<and> a \<noteq> - 1 \<and>
          findColumn (at (linesOf []) (0 + int (length (linesOf [])) - 1))
            (linesOf [] ! (length (linesOf []) - 1)) = Inr b \<and> b \<noteq> - 1) \<and>
    spanFrom (linesOf []) (linesOf []) (0 + 1) \<noteq> ColumnAnomaly"
    by blast
  with m show ?thesis by (rule conjI)
qed

text \<open>
  Claim C10.  The empty selection is one empty line; without a hint it is found at line
  \<open>1\<close>, column \<open>1\<close>, and the end column is \<open>0\<close>, for every content of the file.
\<close>

theorem C10_empty_selection:
  "getSelectionPosition D [] None =
     Found \<lparr> startLine = 1, startColumn = 1, endLine = 1, endColumn = 0 \<rparr>"
proof -
  have ne: "linesOf D \<noteq> []" by (rule splitLF_nonempty)
  then have len: "Suc 0 \<le> length (linesOf D)" by (simp add: Suc_le_eq)
  have "str_includes (linesOf D ! 0) []"
    using occursAt_empty str_includes_iff by blast
  with len have v: "validAlignment (linesOf D) (linesOf []) 0"
    by (simp add: validAlignment_def)
  have n: "\<forall>j. j < 0 \<longrightarrow> \<not> validAlignment (linesOf D) (linesOf []) j"
    by (simp add: validAlignment_def)
  have "getSelectionPosition D [] None = Found (spanOfMatch (linesOf D) (linesOf []) 0)"
    using _ v n by (rule gsp_unhinted) simp
  then show ?thesis by (simp add: spanOfMatch_def indexOf_empty)
qed

end
